theory Spec2Isabelle
  imports Main
begin

section \<open>Navigation trees and the two flatteners\<close>

text \<open>
  The value that \<^verbatim>\<open>yaml.safe_load\<close> returns for the \<^verbatim>\<open>nav\<close> key: a Python list, a Python
  dict (insertion ordered, so an association list; the label is never read), a Python
  \<^verbatim>\<open>str\<close>, or any other value (\<^verbatim>\<open>None\<close>, a number, a boolean, a date), which
  none of the \<^verbatim>\<open>isinstance\<close> tests of \<^verbatim>\<open>get_pages\<close> accepts.
\<close>

datatype 'a nav =
    Seq "'a nav list"
  | Group "(string \<times> 'a nav) list"
  | Leaf string
  | Other 'a

text \<open>\<^verbatim>\<open>s.endswith(suf)\<close> of Python's \<^verbatim>\<open>str\<close>.\<close>

definition endswith :: "string \<Rightarrow> string \<Rightarrow> bool" where
  "endswith s suf \<longleftrightarrow>
     length suf \<le> length s \<and> drop (length s - length suf) s = suf"

text \<open>
  \<^verbatim>\<open>get_pages\<close> of \<^verbatim>\<open>find_pages.py\<close> (lines 7 to 18). The local list \<^verbatim>\<open>pages\<close> starts
  empty and is extended by the result of each recursive call in iteration order, which is
  the concatenation of those results.
\<close>

fun get_pages :: "'a nav \<Rightarrow> string list" where
  "get_pages (Seq items) = concat (map get_pages items)"
| "get_pages (Group kvs) = concat (map (\<lambda>kv. get_pages (snd kv)) kvs)"
| "get_pages (Leaf s) = (if endswith s ''.md'' then [s] else [])"
| "get_pages (Other x) = []"

text \<open>
  \<^verbatim>\<open>get_pages\<close> of \<^verbatim>\<open>generate_status.py\<close> (lines 7 to 22): in a dict, a value that is a
  \<^verbatim>\<open>str\<close> is tested on the spot, any other value is flattened recursively.
\<close>

fun get_pages_status :: "'a nav \<Rightarrow> string list" where
  "get_pages_status (Seq items) = concat (map get_pages_status items)"
| "get_pages_status (Group kvs) =
     concat (map (\<lambda>kv. case snd kv of
                           Leaf s \<Rightarrow> (if endswith s ''.md'' then [s] else [])
                         | v \<Rightarrow> get_pages_status v) kvs)"
| "get_pages_status (Leaf s) = (if endswith s ''.md'' then [s] else [])"
| "get_pages_status (Other x) = []"

text \<open>
  The nodes of a navigation tree in pre-order, left to right: the node itself, then the
  nodes of its children (the elements of a sequence in order, the values of a group in
  key iteration order). This follows the wording of the specification, not the code.
\<close>

fun preorder :: "'a nav \<Rightarrow> 'a nav list" where
  "preorder (Seq items) = Seq items # concat (map preorder items)"
| "preorder (Group kvs) = Group kvs # concat (map (\<lambda>kv. preorder (snd kv)) kvs)"
| "preorder (Leaf s) = [Leaf s]"
| "preorder (Other x) = [Other x]"

text \<open>The page references among a list of nodes: the string leaves that end in \<^verbatim>\<open>.md\<close>, in place.\<close>

fun page_refs :: "'a nav list \<Rightarrow> string list" where
  "page_refs [] = []"
| "page_refs (Leaf s # ns) = (if endswith s ''.md'' then s # page_refs ns else page_refs ns)"
| "page_refs (n # ns) = page_refs ns"

text \<open>The leaf strings of a tree: the strings at its \<open>Leaf\<close> nodes (labels are not leaves).\<close>

fun leaf_strings :: "'a nav \<Rightarrow> string set" where
  "leaf_strings (Seq items) = (\<Union>n \<in> set items. leaf_strings n)"
| "leaf_strings (Group kvs) = (\<Union>kv \<in> set kvs. leaf_strings (snd kv))"
| "leaf_strings (Leaf s) = {s}"
| "leaf_strings (Other x) = {}"

section \<open>The completeness classifier\<close>

text \<open>
  The text of a page is a Python \<^verbatim>\<open>str\<close>, a sequence of Unicode code points: a list of
  natural numbers. The characters the code names are ASCII.
\<close>

type_synonym ustring = "nat list"

definition newline :: nat where "newline = 10"
definition space :: nat where "space = 32"
definition hash :: nat where "hash = 35"
definition backtick :: nat where "backtick = 96"
definition underscore :: nat where "underscore = 95"

text \<open>
  The class \<^verbatim>\<open>\w\<close> of Python's \<^verbatim>\<open>re\<close> on a \<^verbatim>\<open>str\<close> pattern: the underscore and every
  alphanumeric character. Below 128 these are the digits and the letters; above, membership
  is decided by the Unicode database of the interpreter, which is the parameter \<open>alnum\<close>.
\<close>

definition ascii_alnum :: "nat \<Rightarrow> bool" where
  "ascii_alnum c \<longleftrightarrow> (48 \<le> c \<and> c \<le> 57) \<or> (65 \<le> c \<and> c \<le> 90) \<or> (97 \<le> c \<and> c \<le> 122)"

definition word_char :: "(nat \<Rightarrow> bool) \<Rightarrow> nat \<Rightarrow> bool" where
  "word_char alnum c \<longleftrightarrow> c = underscore \<or> (if c < 128 then ascii_alnum c else alnum c)"

text \<open>
  \<^verbatim>\<open>re.findall(r'\w+', content)\<close>: the scan tries a match at the current position; \<^verbatim>\<open>\w+\<close>
  matches there when the character is a word character and then takes every word character
  that follows (greedy); the scan resumes right after the match, or one character further
  when there was none. The result is the list of the matched strings.
\<close>

function findall_words :: "(nat \<Rightarrow> bool) \<Rightarrow> ustring \<Rightarrow> ustring list" where
  "findall_words w [] = []"
| "findall_words w (c # cs) =
     (if w c then takeWhile w (c # cs) # findall_words w (dropWhile w (c # cs))
      else findall_words w cs)"
  by pat_completeness auto
termination
proof (relation "measure (\<lambda>(w, s). length s)")
  fix w :: "nat \<Rightarrow> bool" and c :: nat and cs :: ustring
  assume "w c"
  have "length (dropWhile w cs) \<le> length cs"
    by (rule length_dropWhile_le)
  with \<open>w c\<close> show "((w, dropWhile w (c # cs)), (w, c # cs)) \<in> measure (\<lambda>(w, s). length s)"
    by simp
qed simp_all

text \<open>\<^verbatim>\<open>s.startswith(pat)\<close> and \<^verbatim>\<open>pat in s\<close> of Python's \<^verbatim>\<open>str\<close>.\<close>

fun startswith :: "ustring \<Rightarrow> ustring \<Rightarrow> bool" where
  "startswith s [] = True"
| "startswith [] (p # ps) = False"
| "startswith (c # cs) (p # ps) = (c = p \<and> startswith cs ps)"

fun substr_in :: "ustring \<Rightarrow> ustring \<Rightarrow> bool" where
  "substr_in pat [] = (pat = [])"
| "substr_in pat (c # cs) = (startswith (c # cs) pat \<or> substr_in pat cs)"

text \<open>
  The pattern \<^verbatim>\<open>^#{2,4} \<close> tried at a line start. \<^verbatim>\<open>#{2,4}\<close> is greedy: it first takes as
  many \<^verbatim>\<open>#\<close> as there are, up to four; then a space must follow; when it does not, the
  matcher gives one \<^verbatim>\<open>#\<close> back and tries again, down to two. The result is the length of
  the match.
\<close>

definition hashes :: "ustring \<Rightarrow> nat" where
  "hashes s = length (takeWhile (\<lambda>c. c = hash) (take 4 s))"

fun backtrack :: "nat \<Rightarrow> ustring \<Rightarrow> nat option" where
  "backtrack 0 s = None"
| "backtrack (Suc k) s =
     (if Suc k < 2 then None
      else if Suc k < length s \<and> s ! Suc k = space then Some (Suc k + 1)
      else backtrack k s)"

definition match_header :: "ustring \<Rightarrow> nat option" where
  "match_header s = backtrack (hashes s) s"

text \<open>
  With \<^verbatim>\<open>re.MULTILINE\<close>, \<^verbatim>\<open>^\<close> matches at the start of the string and right after each
  newline. \<open>prev\<close> is the character before the current position, \<open>None\<close> at the start.
\<close>

definition at_line_start :: "nat option \<Rightarrow> bool" where
  "at_line_start prev \<longleftrightarrow> prev = None \<or> prev = Some newline"

text \<open>
  \<^verbatim>\<open>re.findall(r'^#{2,4} ', content, re.MULTILINE)\<close>: the same scan as above with the header
  pattern.
\<close>

function findall_headers :: "nat option \<Rightarrow> ustring \<Rightarrow> ustring list" where
  "findall_headers prev [] = []"
| "findall_headers prev (c # cs) =
     (case (if at_line_start prev then match_header (c # cs) else None) of
        Some n \<Rightarrow> take n (c # cs) # findall_headers (Some ((c # cs) ! (n - 1))) (drop n (c # cs))
      | None \<Rightarrow> findall_headers (Some c) cs)"
  by pat_completeness auto
termination
proof (relation "measure (\<lambda>(prev, s). length s)")
  fix prev :: "nat option" and c :: nat and cs :: ustring and n :: nat
  assume m: "(if at_line_start prev then match_header (c # cs) else None) = Some n"
  have pos: "backtrack k s = Some j \<Longrightarrow> 0 < j" for k s j
    by (induction k) (auto split: if_splits)
  from m have "match_header (c # cs) = Some n"
    by (simp split: if_splits)
  then have "0 < n"
    unfolding match_header_def by (rule pos)
  then show "((Some ((c # cs) ! (n - 1)), drop n (c # cs)), (prev, c # cs))
               \<in> measure (\<lambda>(prev, s). length s)"
    by simp
qed simp_all

text \<open>
  The try block of \<^verbatim>\<open>analyze_page\<close> (lines 32 to 49) after the text has been read. The parameter \<open>alnum\<close> is passed
  on to \<open>word_char\<close>.
\<close>

definition fence :: ustring where
  "fence = [backtick, backtick, backtick]"

definition word_count :: "(nat \<Rightarrow> bool) \<Rightarrow> ustring \<Rightarrow> nat" where
  "word_count alnum content = length (findall_words (word_char alnum) content)"

definition has_code :: "ustring \<Rightarrow> bool" where
  "has_code content \<longleftrightarrow> substr_in fence content"

definition has_structure :: "ustring \<Rightarrow> bool" where
  "has_structure content \<longleftrightarrow> 2 \<le> length (findall_headers None content)"

definition is_completed :: "(nat \<Rightarrow> bool) \<Rightarrow> ustring \<Rightarrow> bool" where
  "is_completed alnum content \<longleftrightarrow>
     (100 < word_count alnum content \<and> (has_code content \<or> has_structure content))
     \<or> 300 < word_count alnum content"

subsection \<open>The heuristic in the words of the specification\<close>

text \<open>
  A maximal run of word characters is a non-empty stretch \<open>i..<j\<close> of the text that holds
  word characters only and can be extended on neither side. Such a run is known by its
  first position, which \<open>run_starts\<close> collects.
\<close>

definition maximal_runs :: "(nat \<Rightarrow> bool) \<Rightarrow> ustring \<Rightarrow> (nat \<times> nat) set" where
  "maximal_runs w s =
     {(i, j). i < j \<and> j \<le> length s \<and> (\<forall>k. i \<le> k \<and> k < j \<longrightarrow> w (s ! k)) \<and>
              (i = 0 \<or> \<not> w (s ! (i - 1))) \<and> (j = length s \<or> \<not> w (s ! j))}"

definition run_starts :: "(nat \<Rightarrow> bool) \<Rightarrow> ustring \<Rightarrow> nat set" where
  "run_starts w s = {i. i < length s \<and> w (s ! i) \<and> (i = 0 \<or> \<not> w (s ! (i - 1)))}"

text \<open>The text contains the pattern at least once.\<close>

definition occurs :: "ustring \<Rightarrow> ustring \<Rightarrow> bool" where
  "occurs pat s \<longleftrightarrow> (\<exists>u v. s = u @ pat @ v)"

text \<open>
  The lines of a text: the stretches between newlines (a text of \<open>n\<close> newlines has
  \<open>n + 1\<close> lines, the last one possibly empty).
\<close>

fun split_lines :: "ustring \<Rightarrow> ustring list" where
  "split_lines [] = [[]]"
| "split_lines (c # cs) =
     (if c = newline then [] # split_lines cs
      else (c # hd (split_lines cs)) # tl (split_lines cs))"

text \<open>A line that starts with two to four \<^verbatim>\<open>#\<close> followed by a space.\<close>

definition is_header_line :: "ustring \<Rightarrow> bool" where
  "is_header_line l \<longleftrightarrow>
     (\<exists>k \<in> {2, 3, 4}. take (k + 1) l = replicate k hash @ [space])"

definition header_lines :: "ustring \<Rightarrow> nat" where
  "header_lines s = length (filter is_header_line (split_lines s))"

section \<open>Exceptions, files and the page classifier\<close>

text \<open>
  The exceptions that can occur in the two scripts, each with the data its text is made
  of. All of them are subclasses of Python's \<^verbatim>\<open>Exception\<close>, so \<^verbatim>\<open>except Exception\<close>
  catches every one.
\<close>

datatype pyexc =
    OSError string
  | UnicodeDecodeError string
  | YAMLError string
  | KeyError string
  | TypeError string
  | IndexError string

text \<open>
  \<^verbatim>\<open>str(e)\<close>, the text an f-string inserts for \<^verbatim>\<open>{e}\<close>: the message, and for a
  \<^verbatim>\<open>KeyError\<close> the key between single quotes.
\<close>

fun exc_str :: "pyexc \<Rightarrow> string" where
  "exc_str (OSError m) = m"
| "exc_str (UnicodeDecodeError m) = m"
| "exc_str (YAMLError m) = m"
| "exc_str (KeyError k) = [CHR 0x27] @ k @ [CHR 0x27]"
| "exc_str (TypeError m) = m"
| "exc_str (IndexError m) = m"

text \<open>
  What the file system holds at a path: nothing (\<open>None\<close>), a file whose text can be read
  and decoded, or something that \<^verbatim>\<open>io.open\<close> or \<^verbatim>\<open>f.read\<close> fails on, with the exception
  it raises (a directory, a file without read permission, bytes that are not UTF-8).
\<close>

datatype page_file = File ustring | Unreadable pyexc

type_synonym filesystem = "string \<Rightarrow> page_file option"

definition path_exists :: "filesystem \<Rightarrow> string \<Rightarrow> bool" where
  "path_exists fs p \<longleftrightarrow> fs p \<noteq> None"

definition read_file :: "filesystem \<Rightarrow> string \<Rightarrow> pyexc + ustring" where
  "read_file fs p =
     (case fs p of
        None \<Rightarrow> Inl (OSError (''[Errno 2] No such file or directory: '' @ [CHR 0x27] @ p @ [CHR 0x27]))
      | Some (File content) \<Rightarrow> Inr content
      | Some (Unreadable e) \<Rightarrow> Inl e)"

text \<open>
  \<^verbatim>\<open>analyze_page\<close> (lines 24 to 52). Standard output is a list of printed lines, passed in
  and returned. The first component of the result is \<open>Inr\<close> of the value returned, or
  \<open>Inl\<close> of an exception that leaves the function.
\<close>

definition analyze_page ::
  "(nat \<Rightarrow> bool) \<Rightarrow> filesystem \<Rightarrow> string \<Rightarrow> string list \<Rightarrow> (pyexc + bool) \<times> string list" where
  "analyze_page alnum fs filepath out =
     (if \<not> path_exists fs filepath then (Inr False, out)
      else case read_file fs filepath of
             Inr content \<Rightarrow> (Inr (is_completed alnum content), out)
           | Inl e \<Rightarrow> (Inr False, out @ [''Error reading '' @ filepath @ '': '' @ exc_str e]))"

section \<open>The status reporter\<close>

record status_record =
  page_id :: nat
  path :: string
  completed :: bool
  status :: string

text \<open>\<^verbatim>\<open>os.path.join(a, b)\<close> on a POSIX system.\<close>

definition path_join :: "string \<Rightarrow> string \<Rightarrow> string" where
  "path_join a b =
     (if b \<noteq> [] \<and> hd b = CHR ''/'' then b
      else if a = [] \<or> last a = CHR ''/'' then a @ b
      else a @ ''/'' @ b)"

text \<open>
  The loop of \<^verbatim>\<open>main\<close> (lines 62 to 71): \<open>i\<close> is the counter of \<^verbatim>\<open>enumerate\<close>,
  \<open>status_db\<close> the list built so far.
\<close>

fun status_loop ::
  "(nat \<Rightarrow> bool) \<Rightarrow> filesystem \<Rightarrow> nat \<Rightarrow> string list \<Rightarrow> status_record list \<Rightarrow> string list
     \<Rightarrow> (pyexc + status_record list) \<times> string list" where
  "status_loop alnum fs i [] status_db out = (Inr status_db, out)"
| "status_loop alnum fs i (page_path # rest) status_db out =
     (case analyze_page alnum fs (path_join ''docs'' page_path) out of
        (Inl e, out') \<Rightarrow> (Inl e, out')
      | (Inr page_completed, out') \<Rightarrow>
          status_loop alnum fs (Suc i) rest
            (status_db @ [\<lparr>page_id = i, path = page_path, completed = page_completed,
                           status = (if page_completed then ''completed'' else ''pending'')\<rparr>])
            out')"

text \<open>
  What \<^verbatim>\<open>yaml.safe_load\<close> returns for the whole file: a mapping, or a value of another type,
  which raises a \<^verbatim>\<open>TypeError\<close> when subscripted with \<^verbatim>\<open>'nav'\<close>; the text of that error
  depends on the type and is carried along.
\<close>

datatype 'a config = Mapping "(string \<times> 'a nav) list" | NotMapping string

definition config_nav :: "'a config \<Rightarrow> pyexc + 'a nav" where
  "config_nav config =
     (case config of
        Mapping kvs \<Rightarrow> (case map_of kvs ''nav'' of
                          None \<Rightarrow> Inl (KeyError ''nav'')
                        | Some v \<Rightarrow> Inr v)
      | NotMapping m \<Rightarrow> Inl (TypeError m))"

text \<open>\<^verbatim>\<open>str(n)\<close> for a natural number.\<close>

fun str_nat :: "nat \<Rightarrow> string" where
  "str_nat n =
     (if n < 10 then [char_of (48 + n)]
      else str_nat (n div 10) @ [char_of (48 + n mod 10)])"

declare str_nat.simps [simp del]

text \<open>
  The surroundings of a run of \<^verbatim>\<open>generate_status.py\<close>: the outcome of opening and parsing
  \<^verbatim>\<open>mkdocs.yml\<close>, the files under the working directory, the alphanumeric table of the
  interpreter, and the exception, if any, that opening \<^verbatim>\<open>pages_status.json\<close> for writing
  raises.
\<close>

record 'a env =
  config_load :: "pyexc + 'a config"
  files :: filesystem
  unicode_alnum :: "nat \<Rightarrow> bool"
  output_open :: "pyexc option"

text \<open>
  The observable result of a run: the lines printed, and the records dumped to the output
  file (\<open>None\<close> when the file was never opened for writing).
\<close>

record report =
  stdout :: "string list"
  pages_status :: "status_record list option"

text \<open>The try block of \<^verbatim>\<open>main\<close> (lines 56 to 76): the exception that leaves it, if any, and the state reached.\<close>

definition main_try :: "'a env \<Rightarrow> pyexc option \<times> report" where
  "main_try e =
     (case config_load e of
        Inl x \<Rightarrow> (Some x, \<lparr>stdout = [], pages_status = None\<rparr>)
      | Inr config \<Rightarrow>
     (case config_nav config of
        Inl x \<Rightarrow> (Some x, \<lparr>stdout = [], pages_status = None\<rparr>)
      | Inr nav \<Rightarrow>
     (case status_loop (unicode_alnum e) (files e) 0 (get_pages_status nav) [] [] of
        (Inl x, out) \<Rightarrow> (Some x, \<lparr>stdout = out, pages_status = None\<rparr>)
      | (Inr status_db, out) \<Rightarrow>
     (case output_open e of
        Some x \<Rightarrow> (Some x, \<lparr>stdout = out, pages_status = None\<rparr>)
      | None \<Rightarrow>
          (None, \<lparr>stdout = out @ [''Successfully generated status for ''
                                   @ str_nat (length status_db) @ '' pages.''],
                  pages_status = Some status_db\<rparr>)))))"

text \<open>\<^verbatim>\<open>main\<close> (lines 54 to 79): the try block and its handler.\<close>

definition main :: "'a env \<Rightarrow> report" where
  "main e =
     (case main_try e of
        (None, r) \<Rightarrow> r
      | (Some x, r) \<Rightarrow> r\<lparr>stdout := stdout r @ [''Failed to generate status: '' @ exc_str x]\<rparr>)"

section \<open>Properties of the flatteners\<close>

lemma get_pages_status_eq: "get_pages_status nav = get_pages nav"
proof (induction nav)
  case (Seq items)
  then show ?case by (simp cong: map_cong)
next
  case (Group kvs)
  have "(case snd kv of Leaf s \<Rightarrow> (if endswith s ''.md'' then [s] else [])
          | v \<Rightarrow> get_pages_status v) = get_pages (snd kv)"
    if "kv \<in> set kvs" for kv
  proof (cases "snd kv")
    case (Leaf s)
    then show ?thesis by simp
  next
    case (Seq xs)
    with Group that show ?thesis by (cases kv) force
  next
    case (Group xs)
    with Group.IH that show ?thesis by (cases kv) force
  next
    case (Other x)
    then show ?thesis by simp
  qed
  then show ?case by (simp cong: map_cong)
next
  case (Leaf s)
  show ?case by simp
next
  case (Other x)
  show ?case by simp
qed

text \<open>
  C1: on every navigation node, malformed leaves included, the flattener of the slice
  selector and the flattener of the status reporter return the same ordered list of page
  paths.
\<close>

theorem get_pages_variants_agree: "get_pages_status nav = get_pages nav"
  by (rule get_pages_status_eq)

lemma page_refs_append: "page_refs (ms @ ns) = page_refs ms @ page_refs ns"
  by (induction ms rule: page_refs.induct) simp_all

lemma page_refs_concat: "page_refs (concat nss) = concat (map page_refs nss)"
  by (induction nss) (simp_all add: page_refs_append)

lemma get_pages_preorder: "get_pages nav = page_refs (preorder nav)"
proof (induction nav)
  case (Seq items)
  then show ?case by (simp add: page_refs_concat comp_def cong: map_cong)
next
  case (Group kvs)
  have "get_pages (snd kv) = page_refs (preorder (snd kv))" if "kv \<in> set kvs" for kv
    using Group that by (cases kv) force
  then show ?case by (simp add: page_refs_concat comp_def cong: map_cong)
qed simp_all

lemma set_get_pages: "set (get_pages nav) = {s \<in> leaf_strings nav. endswith s ''.md''}"
proof (induction nav)
  case (Seq items)
  then show ?case by auto
next
  case (Group kvs)
  have "set (get_pages (snd kv)) = {s \<in> leaf_strings (snd kv). endswith s ''.md''}"
    if "kv \<in> set kvs" for kv
    using Group that by (cases kv) force
  then show ?case by auto
qed auto

text \<open>
  C6: a leaf string of the tree is in the flattened output exactly when it ends in
  \<^verbatim>\<open>.md\<close>, the output holds nothing but leaf strings, and a node that is neither a
  sequence, a group nor a string yields the empty list; for both flatteners, which are
  total functions and so raise nothing.
\<close>

theorem leaf_filter:
  "(s \<in> leaf_strings nav \<longrightarrow> (s \<in> set (get_pages nav) \<longleftrightarrow> endswith s ''.md'')) \<and>
   (s \<in> leaf_strings nav \<longrightarrow> (s \<in> set (get_pages_status nav) \<longleftrightarrow> endswith s ''.md'')) \<and>
   set (get_pages nav) \<subseteq> leaf_strings nav \<and>
   set (get_pages_status nav) \<subseteq> leaf_strings nav \<and>
   get_pages (Other x) = [] \<and> get_pages_status (Other x) = []"
  by (simp add: get_pages_status_eq set_get_pages)

theorem leaf_filter_witness:
  "''index.md'' \<in> leaf_strings (Seq [Group [(''Home'', Leaf ''index.md'')], Leaf ''notes.txt'', Other (3::int)]) \<and>
   ''index.md'' \<in> set (get_pages (Seq [Group [(''Home'', Leaf ''index.md'')], Leaf ''notes.txt'', Other (3::int)])) \<and>
   ''notes.txt'' \<in> leaf_strings (Seq [Group [(''Home'', Leaf ''index.md'')], Leaf ''notes.txt'', Other (3::int)]) \<and>
   ''notes.txt'' \<notin> set (get_pages_status (Seq [Group [(''Home'', Leaf ''index.md'')], Leaf ''notes.txt'', Other (3::int)])) \<and>
   get_pages (Seq [Group [(''Home'', Leaf ''index.md'')], Leaf ''notes.txt'', Other (3::int)]) = [''index.md'']"
  using leaf_filter [of "''index.md''" "Seq [Group [(''Home'', Leaf ''index.md'')], Leaf ''notes.txt'', Other (3::int)]" 3]
    leaf_filter [of "''notes.txt''" "Seq [Group [(''Home'', Leaf ''index.md'')], Leaf ''notes.txt'', Other (3::int)]" 3]
  by (simp add: endswith_def)

text \<open>
  C7: the output of the flattener is the list of page references met on a pre-order,
  left-to-right walk of the tree (sequence elements in order, group values in key order,
  leaves in place). The flattener is a function of its argument alone, so a second run
  on the same tree returns the same list.
\<close>

theorem flatten_preorder:
  "get_pages_status nav = page_refs (preorder nav) \<and>
   get_pages nav = page_refs (preorder nav)"
  by (simp add: get_pages_status_eq get_pages_preorder)

theorem flatten_preorder_witness:
  "get_pages_status (Seq [Group [(''Home'', Leaf ''index.md'')], Group [(''Guide'', Seq [Leaf ''a.md'', Leaf ''b.txt'', Group [(''Deep'', Leaf ''c.md'')]])], Other True])
     = [''index.md'', ''a.md'', ''c.md''] \<and>
   page_refs (preorder (Seq [Group [(''Home'', Leaf ''index.md'')], Group [(''Guide'', Seq [Leaf ''a.md'', Leaf ''b.txt'', Group [(''Deep'', Leaf ''c.md'')]])], Other True]))
     = [''index.md'', ''a.md'', ''c.md'']"
  using flatten_preorder [of "Seq [Group [(''Home'', Leaf ''index.md'')], Group [(''Guide'', Seq [Leaf ''a.md'', Leaf ''b.txt'', Group [(''Deep'', Leaf ''c.md'')]])], Other True]"]
  by (simp add: endswith_def)

section \<open>Properties of the classifier\<close>

lemma startswith_iff: "startswith s p \<longleftrightarrow> (\<exists>v. s = p @ v)"
  by (induction s p rule: startswith.induct) auto

lemma substr_in_occurs: "substr_in pat s \<longleftrightarrow> occurs pat s"
proof (induction s)
  case Nil
  then show ?case by (auto simp: occurs_def)
next
  case (Cons c cs)
  have "occurs pat (c # cs) \<longleftrightarrow> (\<exists>v. c # cs = pat @ v) \<or> occurs pat cs"
    unfolding occurs_def
    apply (rule iffI)
     apply (elim exE)
    subgoal for u v by (cases u) auto
    apply (erule disjE)
     apply (metis append_Nil)
    apply (metis append_Cons)
    done
  with Cons show ?case by (simp add: startswith_iff)
qed

lemma run_starts_skip:
  assumes "\<not> w c"
  shows "run_starts w (c # cs) = Suc ` run_starts w cs"
proof (rule set_eqI)
  fix i
  show "i \<in> run_starts w (c # cs) \<longleftrightarrow> i \<in> Suc ` run_starts w cs"
  proof (cases i)
    case 0
    with assms show ?thesis by (auto simp: run_starts_def)
  next
    case (Suc i')
    with assms show ?thesis
      by (cases i') (auto simp: run_starts_def image_iff)
  qed
qed

lemma run_starts_block:
  assumes "\<forall>x \<in> set t. w x" and "t \<noteq> []" and "d = [] \<or> \<not> w (hd d)"
  shows "run_starts w (t @ d) = insert 0 ((\<lambda>i. length t + i) ` run_starts w d)"
proof (rule set_eqI)
  fix i
  consider "i = 0" | "0 < i" "i < length t" | "i = length t" | "length t < i"
    by linarith
  then show "i \<in> run_starts w (t @ d) \<longleftrightarrow> i \<in> insert 0 ((\<lambda>i. length t + i) ` run_starts w d)"
  proof cases
    case 1
    with assms show ?thesis by (cases t) (auto simp: run_starts_def)
  next
    case 2
    then have "w ((t @ d) ! (i - 1))"
      using assms(1) by (simp add: nth_append)
    with 2 show ?thesis by (auto simp: run_starts_def)
  next
    case 3
    have "\<not> (i < length (t @ d) \<and> w ((t @ d) ! i))"
      using 3 assms(3) by (cases d) (auto simp: nth_append)
    moreover have "0 \<notin> run_starts w d"
      using assms(3) by (cases d) (auto simp: run_starts_def)
    ultimately show ?thesis
      using 3 assms(2) by (auto simp: run_starts_def image_iff)
  next
    case 4
    then obtain i' where i: "i = length t + Suc i'"
      by (metis less_imp_Suc_add add_Suc_right)
    have "(t @ d) ! (i - 1) = d ! i'" "(t @ d) ! i = d ! Suc i'"
      using i by (simp_all add: nth_append)
    then have "i \<in> run_starts w (t @ d) \<longleftrightarrow> Suc i' \<in> run_starts w d"
      using i by (simp add: run_starts_def)
    moreover have "i \<in> (\<lambda>i. length t + i) ` run_starts w d \<longleftrightarrow> Suc i' \<in> run_starts w d"
      using i by auto
    ultimately show ?thesis using i by simp
  qed
qed

lemma finite_run_starts: "finite (run_starts w s)"
  by (simp add: run_starts_def)

lemma length_findall_words: "length (findall_words w s) = card (run_starts w s)"
proof (induction w s rule: findall_words.induct)
  case (1 w)
  show ?case by (simp add: run_starts_def)
next
  case (2 w c cs)
  show ?case
  proof (cases "w c")
    case False
    with 2 show ?thesis
      by (simp add: run_starts_skip card_image)
  next
    case True
    let ?t = "takeWhile w (c # cs)" and ?d = "dropWhile w (c # cs)"
    have t: "\<forall>x \<in> set ?t. w x" "?t \<noteq> []"
      using True by (auto dest: set_takeWhileD)
    have d: "?d = [] \<or> \<not> w (hd ?d)"
      using hd_dropWhile [of w "c # cs"] by blast
    have "run_starts w (?t @ ?d) = insert 0 ((\<lambda>i. length ?t + i) ` run_starts w ?d)"
      using t d by (rule run_starts_block)
    then have rs: "run_starts w (c # cs) = insert 0 ((\<lambda>i. length ?t + i) ` run_starts w ?d)"
      by (simp only: takeWhile_dropWhile_id)
    have "0 \<notin> (\<lambda>i. length ?t + i) ` run_starts w ?d"
      using t(2) by auto
    then have "card (run_starts w (c # cs)) = Suc (card ((\<lambda>i. length ?t + i) ` run_starts w ?d))"
      unfolding rs by (simp add: finite_run_starts)
    also have "card ((\<lambda>i. length ?t + i) ` run_starts w ?d) = card (run_starts w ?d)"
      by (rule card_image) (simp add: inj_on_def)
    finally show ?thesis
      using True 2 by simp
  qed
qed

lemma maximal_run_end_unique:
  assumes "(i, j) \<in> maximal_runs w s" and "(i, j') \<in> maximal_runs w s"
  shows "j = j'"
proof (rule ccontr)
  assume "j \<noteq> j'"
  then consider "j < j'" | "j' < j" by linarith
  then show False
  proof cases
    case 1
    with assms show False unfolding maximal_runs_def by force
  next
    case 2
    with assms show False unfolding maximal_runs_def by force
  qed
qed

lemma maximal_run_from_start:
  assumes "i \<in> run_starts w s"
  shows "(i, i + length (takeWhile w (drop i s))) \<in> maximal_runs w s"
proof -
  let ?n = "length (takeWhile w (drop i s))"
  from assms have i: "i < length s" "w (s ! i)" "i = 0 \<or> \<not> w (s ! (i - 1))"
    by (simp_all add: run_starts_def)
  have "drop i s = s ! i # drop (Suc i) s"
    using i(1) by (simp add: Cons_nth_drop_Suc)
  then have pos: "0 < ?n"
    using i(2) by simp
  have le: "?n \<le> length s - i"
    using length_takeWhile_le [of w "drop i s"] by simp
  have inside: "w (s ! k)" if "i \<le> k" "k < i + ?n" for k
  proof -
    have "k - i < ?n" using that by linarith
    then have "w (takeWhile w (drop i s) ! (k - i))"
      by (meson nth_mem set_takeWhileD)
    moreover have "takeWhile w (drop i s) ! (k - i) = drop i s ! (k - i)"
      using \<open>k - i < ?n\<close> by (rule takeWhile_nth)
    ultimately show ?thesis
      using that i(1) le by simp
  qed
  have stop: "i + ?n = length s \<or> \<not> w (s ! (i + ?n))"
  proof (cases "?n < length (drop i s)")
    case True
    then have "\<not> w (drop i s ! ?n)"
      by (rule nth_length_takeWhile)
    then show ?thesis using True by simp
  next
    case False
    then show ?thesis using le i(1) by simp
  qed
  show ?thesis
    unfolding maximal_runs_def using pos le i(1) i(3) inside stop by auto
qed

lemma fst_maximal_runs: "fst ` maximal_runs w s = run_starts w s"
proof (rule set_eqI)
  fix i
  show "i \<in> fst ` maximal_runs w s \<longleftrightarrow> i \<in> run_starts w s"
  proof
    assume "i \<in> fst ` maximal_runs w s"
    then obtain j where "(i, j) \<in> maximal_runs w s" by force
    then show "i \<in> run_starts w s"
      unfolding maximal_runs_def run_starts_def by auto
  next
    assume "i \<in> run_starts w s"
    then have "(i, i + length (takeWhile w (drop i s))) \<in> maximal_runs w s"
      by (rule maximal_run_from_start)
    then show "i \<in> fst ` maximal_runs w s" by force
  qed
qed

lemma card_maximal_runs: "card (maximal_runs w s) = card (run_starts w s)"
proof -
  have "inj_on fst (maximal_runs w s)"
    by (rule inj_onI) (auto dest: maximal_run_end_unique)
  then have "card (fst ` maximal_runs w s) = card (maximal_runs w s)"
    by (rule card_image)
  then show ?thesis by (simp add: fst_maximal_runs)
qed

lemma hashes_le: "hashes s \<le> 4" "hashes s \<le> length s"
proof -
  have "hashes s \<le> length (take 4 s)"
    unfolding hashes_def by (rule length_takeWhile_le)
  then show "hashes s \<le> 4" "hashes s \<le> length s" by simp_all
qed

lemma hashes_nth: "i < hashes s \<Longrightarrow> s ! i = hash"
proof -
  assume a: "i < hashes s"
  then have "takeWhile (\<lambda>c. c = hash) (take 4 s) ! i = hash"
    unfolding hashes_def by (meson nth_mem set_takeWhileD)
  moreover have "takeWhile (\<lambda>c. c = hash) (take 4 s) ! i = take 4 s ! i"
    using a unfolding hashes_def by (rule takeWhile_nth)
  moreover have "i < 4" using a hashes_le(1) [of s] by linarith
  ultimately show ?thesis by simp
qed

lemma hashes_stop: "hashes s < 4 \<Longrightarrow> hashes s < length s \<Longrightarrow> s ! hashes s \<noteq> hash"
proof -
  assume a: "hashes s < 4" "hashes s < length s"
  then have "hashes s < length (take 4 s)" by simp
  then have "take 4 s ! hashes s \<noteq> hash"
    unfolding hashes_def by (rule nth_length_takeWhile)
  then show ?thesis using a by simp
qed

lemma backtrack_below: "k < hashes s \<Longrightarrow> backtrack k s = None"
proof (induction k)
  case 0
  show ?case by simp
next
  case (Suc k)
  then have "s ! Suc k = hash" by (simp add: hashes_nth)
  with Suc show ?case by (simp add: hash_def space_def)
qed

lemma match_header_eq:
  "match_header s =
     (if 2 \<le> hashes s \<and> hashes s < length s \<and> s ! hashes s = space
      then Some (hashes s + 1) else None)"
proof (cases "hashes s")
  case 0
  then show ?thesis by (simp add: match_header_def)
next
  case (Suc k)
  have "backtrack k s = None"
    using Suc by (simp add: backtrack_below)
  with Suc show ?thesis
    by (auto simp: match_header_def)
qed

lemma takeWhile_hashes:
  "c \<noteq> hash \<Longrightarrow> takeWhile (\<lambda>c. c = hash) (replicate n hash @ c # rest) = replicate n hash"
  by (induction n) simp_all

lemma hashes_replicate:
  "c \<noteq> hash \<Longrightarrow> hashes (replicate n hash @ c # rest) = min n 4"
proof -
  assume c: "c \<noteq> hash"
  show ?thesis
  proof (cases "n < 4")
    case True
    then have "take 4 (replicate n hash @ c # rest) = replicate n hash @ c # take (3 - n) rest"
    proof -
      obtain m where m: "4 - n = Suc m" using True by (cases "4 - n") auto
      then have "m = 3 - n" by linarith
      with m True show ?thesis by simp
    qed
    then show ?thesis using c True by (simp add: hashes_def takeWhile_hashes)
  next
    case False
    then have "take 4 (replicate n hash @ c # rest) = replicate 4 hash"
      by (simp add: min_def)
    then show ?thesis using False by (simp add: hashes_def)
  qed
qed

lemma match_header_hashes_space:
  "match_header (replicate n hash @ space # rest) = (if 2 \<le> n \<and> n \<le> 4 then Some (n + 1) else None)"
proof -
  have ne: "space \<noteq> hash" by (simp add: space_def hash_def)
  have h: "hashes (replicate n hash @ space # rest) = min n 4"
    using ne by (rule hashes_replicate)
  show ?thesis
  proof (cases "n \<le> 4")
    case True
    then show ?thesis by (simp add: match_header_eq h nth_append)
  next
    case False
    then have "(replicate n hash @ space # rest) ! 4 = hash"
      by (simp add: nth_append)
    with False show ?thesis by (simp add: match_header_eq h ne [symmetric])
  qed
qed

lemma match_header_Some_iff:
  "match_header s = Some n \<longleftrightarrow>
     (\<exists>k \<in> {2, 3, 4}. n = k + 1 \<and> take (k + 1) s = replicate k hash @ [space])"
proof
  assume m: "match_header s = Some n"
  let ?h = "hashes s"
  from m have h: "2 \<le> ?h" "?h < length s" "s ! ?h = space" "n = ?h + 1"
    by (simp_all add: match_header_eq split: if_splits)
  have "take ?h s = replicate ?h hash"
    by (rule nth_equalityI) (use h(2) in \<open>simp_all add: hashes_nth\<close>)
  then have "take (?h + 1) s = replicate ?h hash @ [space]"
    using h(2,3) by (simp add: take_Suc_conv_app_nth)
  moreover have "?h \<in> {2, 3, 4}"
    using h(1) hashes_le(1) [of s] by auto
  ultimately show "\<exists>k \<in> {2, 3, 4}. n = k + 1 \<and> take (k + 1) s = replicate k hash @ [space]"
    using h(4) by blast
next
  assume "\<exists>k \<in> {2, 3, 4}. n = k + 1 \<and> take (k + 1) s = replicate k hash @ [space]"
  then obtain k where k: "k \<in> {2, 3, 4}" "n = k + 1" "take (k + 1) s = replicate k hash @ [space]"
    by blast
  have "take (k + 1) s @ drop (k + 1) s = s" by (rule append_take_drop_id)
  then have "s = replicate k hash @ space # drop (k + 1) s"
    unfolding k(3) by simp
  then have "match_header s = match_header (replicate k hash @ space # drop (k + 1) s)"
    by simp
  also have "\<dots> = Some n"
    using k(1,2) by (auto simp: match_header_hashes_space)
  finally show "match_header s = Some n" .
qed

lemma split_lines_not_Nil: "split_lines s \<noteq> []"
  by (cases s) simp_all

lemma hd_split_lines: "hd (split_lines s) = takeWhile (\<lambda>c. c \<noteq> newline) s"
  by (induction s) simp_all

lemma tl_split_lines_Cons:
  "tl (split_lines (c # cs)) = (if c = newline then split_lines cs else tl (split_lines cs))"
  by simp

lemma tl_split_lines_append:
  "newline \<notin> set p \<Longrightarrow> tl (split_lines (p @ r)) = tl (split_lines r)"
  by (induction p) auto

lemma take_takeWhile_eq:
  "\<forall>x \<in> set p. P x \<Longrightarrow> length p = n \<Longrightarrow> take n (takeWhile P s) = p \<longleftrightarrow> take n s = p"
proof (induction s arbitrary: p n)
  case Nil
  then show ?case by simp
next
  case (Cons c cs)
  show ?case
  proof (cases p)
    case Nil
    with Cons.prems show ?thesis by simp
  next
    case (Cons x p')
    then obtain m where m: "n = Suc m" "length p' = m"
      using Cons.prems(2) by auto
    have p': "\<forall>x \<in> set p'. P x" "P x"
      using Cons.prems(1) Cons by simp_all
    show ?thesis
    proof (cases "P c")
      case True
      then show ?thesis
        using Cons.IH [OF p'(1) m(2)] m(1) Cons by simp
    next
      case False
      then have "c \<noteq> x" using p'(2) by blast
      with False show ?thesis using m(1) Cons by simp
    qed
  qed
qed

lemma is_header_line_hd:
  "is_header_line (hd (split_lines s)) \<longleftrightarrow> (\<exists>n. match_header s = Some n)"
proof -
  have "take (k + 1) (takeWhile (\<lambda>c. c \<noteq> newline) s) = replicate k hash @ [space]
          \<longleftrightarrow> take (k + 1) s = replicate k hash @ [space]" for k
    by (rule take_takeWhile_eq) (auto simp: hash_def space_def newline_def)
  then show ?thesis
    unfolding is_header_line_def hd_split_lines match_header_Some_iff by blast
qed

lemma match_header_consumes:
  assumes "match_header s = Some n"
  shows "0 < n" "s ! (n - 1) = space" "tl (split_lines s) = tl (split_lines (drop n s))"
proof -
  from assms obtain k where k: "k \<in> {2, 3, 4}" "n = k + 1"
      "take (k + 1) s = replicate k hash @ [space]"
    unfolding match_header_Some_iff by blast
  show "0 < n" using k(2) by simp
  have len: "k < length s"
  proof (rule ccontr)
    assume "\<not> k < length s"
    then have "length (take (k + 1) s) \<le> k" by simp
    then show False unfolding k(3) by simp
  qed
  have "s ! k = take (k + 1) s ! k" by simp
  then show "s ! (n - 1) = space"
    unfolding k(3) using k(2) by (simp add: nth_append)
  have "newline \<notin> set (take n s)"
    unfolding k(2) k(3) by (auto simp: hash_def space_def newline_def)
  then have "tl (split_lines (take n s @ drop n s)) = tl (split_lines (drop n s))"
    by (rule tl_split_lines_append)
  then show "tl (split_lines s) = tl (split_lines (drop n s))" by simp
qed

lemma filter_split_lines:
  "length (filter is_header_line (split_lines s)) =
     (if is_header_line (hd (split_lines s)) then 1 else 0)
     + length (filter is_header_line (tl (split_lines s)))"
  using split_lines_not_Nil [of s] by (cases "split_lines s") simp_all

lemma length_findall_headers:
  "length (findall_headers prev s) =
     length (filter is_header_line
       (if at_line_start prev then split_lines s else tl (split_lines s)))"
proof (induction prev s rule: findall_headers.induct)
  case (1 prev)
  show ?case by (simp add: is_header_line_def)
next
  case (2 prev c cs)
  let ?s = "c # cs"
  show ?case
  proof (cases "at_line_start prev")
    case False
    then have scr: "(if at_line_start prev then match_header ?s else None) = None"
      by simp
    then have "length (findall_headers prev ?s) = length (findall_headers (Some c) cs)"
      by simp
    also have "\<dots> = length (filter is_header_line (tl (split_lines ?s)))"
      unfolding 2(1) [OF scr] by (simp add: at_line_start_def)
    finally show ?thesis using False by simp
  next
    case True
    show ?thesis
    proof (cases "match_header ?s")
      case None
      then have nh: "\<not> is_header_line (hd (split_lines ?s))"
        by (simp add: is_header_line_hd del: split_lines.simps)
      have scr: "(if at_line_start prev then match_header ?s else None) = None"
        using None by simp
      then have "length (findall_headers prev ?s) = length (findall_headers (Some c) cs)"
        by simp
      also have "\<dots> = length (filter is_header_line (tl (split_lines ?s)))"
        unfolding 2(1) [OF scr] by (simp add: at_line_start_def)
      finally show ?thesis
        using True nh filter_split_lines [of ?s] by (simp del: split_lines.simps)
    next
      case (Some n)
      then have h: "is_header_line (hd (split_lines ?s))"
        by (simp add: is_header_line_hd del: split_lines.simps)
      note mc = match_header_consumes [OF Some]
      have scr: "(if at_line_start prev then match_header ?s else None) = Some n"
        using True Some by simp
      have "\<not> at_line_start (Some (?s ! (n - 1)))"
        unfolding mc(2) by (simp add: at_line_start_def space_def newline_def)
      then have "length (findall_headers (Some (?s ! (n - 1))) (drop n ?s)) =
                 length (filter is_header_line (tl (split_lines (drop n ?s))))"
        unfolding 2(2) [OF scr] by simp
      then have "length (findall_headers prev ?s) =
                 Suc (length (filter is_header_line (tl (split_lines ?s))))"
        unfolding mc(3) using scr by (simp del: split_lines.simps)
      then show ?thesis
        using True h filter_split_lines [of ?s] by (simp del: split_lines.simps)
    qed
  qed
qed

end
